theory Spec2Isabelle
  imports Main
begin

section \<open>Data model of \<open>path_constrain.py\<close>\<close>

text \<open>
  A function identifier is a Python \<open>str\<close>. Characters of \<open>string\<close> are 8-bit, so the
  model covers identifiers and input lines whose code points are below 256.
\<close>

type_synonym func = string

text \<open>
  A Python \<open>dict\<close> is an association list in insertion order; a lookup reads the first
  entry of a key. The dictionaries of the program have list values and are only read
  with \<open>d.get(k, [])\<close>, which is \<open>dict_get\<close>, or walked with \<open>d.items()\<close>, which is the
  list itself. The keys of a dictionary are distinct, and so are those of the lists
  that \<open>parse_call_graph_file\<close> builds (\<open>parse_keys_distinct\<close>).
\<close>

type_synonym call_graph = "(func \<times> func list) list"
type_synonym call_sites = "(func \<times> (func \<times> int) list) list"
type_synonym bb_calls = "(func \<times> func list list) list"

definition dict_get :: "('k \<times> 'v list) list \<Rightarrow> 'k \<Rightarrow> 'v list" where
  "dict_get d k = (case map_of d k of None \<Rightarrow> [] | Some vs \<Rightarrow> vs)"

text \<open>
  \<open>d[k].append(v)\<close> on a \<open>defaultdict(list)\<close>: a new key is entered last with the
  one-element list, a known key keeps its place and its list grows at the end.
\<close>

fun dict_append :: "'k \<Rightarrow> 'v \<Rightarrow> ('k \<times> 'v list) list \<Rightarrow> ('k \<times> 'v list) list" where
  "dict_append k v [] = [(k, [v])]"
| "dict_append k v ((k', vs) # d) =
     (if k = k' then (k', vs @ [v]) # d else (k', vs) # dict_append k v d)"

text \<open>
  A Python \<open>set\<close> is the list of its elements without repetition, in the order in which
  they were added. Python does not fix the order in which a set is iterated; the
  results below are about \<open>set\<close> of these lists, and \<open>recursive_deps_order_irrelevant\<close>
  shows that the order of the seeds does not change them.
\<close>

type_synonym 'a pyset = "'a list"

definition pyset_add :: "'a \<Rightarrow> 'a pyset \<Rightarrow> 'a pyset" where
  "pyset_add x S = (if x \<in> set S then S else S @ [x])"

definition pyset_of :: "'a list \<Rightarrow> 'a pyset" where
  "pyset_of xs = fold pyset_add xs []"

definition pyset_union :: "'a pyset \<Rightarrow> 'a list \<Rightarrow> 'a pyset" where
  "pyset_union S xs = fold pyset_add xs S"

section \<open>\<open>parse_call_graph_file\<close>\<close>

text \<open>
  \<open>str.strip()\<close> removes the characters for which \<open>str.isspace\<close> holds from both ends;
  below code point 256 these are 9 to 13, 28 to 32, 133 and 160.
\<close>

definition py_isspace :: "char \<Rightarrow> bool" where
  "py_isspace c = (of_char c \<in> {9, 10, 11, 12, 13, 28, 29, 30, 31, 32, 133, 160 :: nat})"

definition strip :: "string \<Rightarrow> string" where
  "strip s = rev (dropWhile py_isspace (rev (dropWhile py_isspace s)))"

text \<open>\<open>s.split(sep)\<close> for a one-character separator: every occurrence splits.\<close>

fun split :: "char \<Rightarrow> string \<Rightarrow> string list" where
  "split sep [] = [[]]"
| "split sep (c # cs) =
     (if c = sep then [] # split sep cs
      else (case split sep cs of p # ps \<Rightarrow> (c # p) # ps | [] \<Rightarrow> [[c]]))"

text \<open>
  The body of the loop over the lines, up to the two \<open>append\<close>s: \<open>None\<close> is either
  \<open>continue\<close>. The two unpackings raise \<open>ValueError\<close> unless the split has exactly two
  parts, and so does \<open>int\<close> on a string it does not accept; all three are caught by the
  one handler. The built-in \<open>int\<close> is the parameter \<open>py_int\<close>, \<open>None\<close> where it raises.
  The message printed by the handler is not modelled.
\<close>

definition parse_line :: "(string \<Rightarrow> int option) \<Rightarrow> string \<Rightarrow> (func \<times> func \<times> int) option" where
  "parse_line py_int raw =
     (let line = strip raw in
      if line = [] \<or> CHR '','' \<notin> set line \<or> CHR '':'' \<notin> set line then None
      else (case split (CHR '','') line of
              [caller, callee_part] \<Rightarrow>
                (case split (CHR '':'') callee_part of
                   [callee, lineno] \<Rightarrow>
                     (case py_int lineno of
                        None \<Rightarrow> None
                      | Some n \<Rightarrow> Some (caller, callee, n))
                 | _ \<Rightarrow> None)
            | _ \<Rightarrow> None))"

definition parse_step ::
  "(string \<Rightarrow> int option) \<Rightarrow> string \<Rightarrow> call_graph \<times> call_sites \<Rightarrow> call_graph \<times> call_sites" where
  "parse_step py_int raw acc =
     (case parse_line py_int raw of
        None \<Rightarrow> acc
      | Some (caller, callee, lineno) \<Rightarrow>
          (dict_append caller callee (fst acc), dict_append caller (callee, lineno) (snd acc)))"

text \<open>The file is the list of its lines.\<close>

definition parse_call_graph_file ::
  "(string \<Rightarrow> int option) \<Rightarrow> string list \<Rightarrow> call_graph \<times> call_sites" where
  "parse_call_graph_file py_int lines = fold (parse_step py_int) lines ([], [])"

text \<open>
  An instance of \<open>py_int\<close> for running examples: the non-empty strings of decimal digits,
  on which \<open>int\<close> returns the number they spell.
\<close>

definition digit_val :: "char \<Rightarrow> int option" where
  "digit_val c =
     (let n = of_char c :: nat in if 48 \<le> n \<and> n \<le> 57 then Some (int n - 48) else None)"

fun decimal_acc :: "int \<Rightarrow> string \<Rightarrow> int option" where
  "decimal_acc acc [] = Some acc"
| "decimal_acc acc (c # cs) =
     (case digit_val c of None \<Rightarrow> None | Some d \<Rightarrow> decimal_acc (10 * acc + d) cs)"

definition decimal_int :: "string \<Rightarrow> int option" where
  "decimal_int s = (if s = [] then None else decimal_acc 0 s)"

section \<open>\<open>get_call_path\<close>\<close>

text \<open>
  The closure variables \<open>visited\<close> and \<open>path\<close> and the list \<open>current_path\<close>, which every
  call of \<open>dfs\<close> shares, are the state. \<open>visit_log\<close> is a ghost field, not a variable of
  the program: it records, in order, every node for which \<open>dfs\<close> gets past the
  \<open>visited\<close> test.
\<close>

record dfs_state =
  visited :: "func pyset"
  current_path :: "func list"
  path :: "func list"
  visit_log :: "func list"

text \<open>
  \<open>dfs\<close> is the nested function, \<open>dfs_callees\<close> its \<open>for\<close> loop. \<open>current_path.pop()\<close>
  is \<open>butlast\<close>; it is reached only with the node just appended still at the end
  (\<open>dfs_failure_restores\<close>), so the list is never empty there. The interpreter's limit on
  the depth of recursion is not modelled.
\<close>

function dfs :: "call_graph \<Rightarrow> func \<Rightarrow> func \<Rightarrow> dfs_state \<Rightarrow> bool \<times> dfs_state"
  and dfs_callees :: "call_graph \<Rightarrow> func \<Rightarrow> func list \<Rightarrow> dfs_state \<Rightarrow> bool \<times> dfs_state"
where
  "dfs G target node s =
     (if node \<in> set (visited s) then (False, s)
      else let s1 = s\<lparr>visited := pyset_add node (visited s),
                      visit_log := visit_log s @ [node],
                      current_path := current_path s @ [node]\<rparr>
           in if node = target then (True, s1\<lparr>path := path s1 @ current_path s1\<rparr>)
              else let (found, s2) = dfs_callees G target (dict_get G node) s1
                   in if found then (True, s2)
                      else (False, s2\<lparr>current_path := butlast (current_path s2)\<rparr>))"
| "dfs_callees G target [] s = (False, s)"
| "dfs_callees G target (callee # rest) s =
     (let (found, s') = dfs G target callee s
      in if found then (True, s') else dfs_callees G target rest s')"
  by pat_completeness auto

text \<open>Every function that occurs as a callee in the graph.\<close>

definition callee_nodes :: "call_graph \<Rightarrow> func set" where
  "callee_nodes G = (\<Union>(k, vs) \<in> set G. set vs)"

lemma finite_callee_nodes: "finite (callee_nodes G)"
  by (auto simp: callee_nodes_def)

lemma dict_get_subset: "set (dict_get G node) \<subseteq> callee_nodes G"
proof (cases "map_of G node")
  case None
  then show ?thesis by (simp add: dict_get_def)
next
  case (Some vs)
  then have "(node, vs) \<in> set G" by (rule map_of_SomeD)
  then have "set vs \<subseteq> callee_nodes G" unfolding callee_nodes_def by blast
  with Some show ?thesis by (simp add: dict_get_def)
qed

lemma set_pyset_add [simp]: "set (pyset_add x S) = insert x (set S)"
  by (auto simp: pyset_add_def)

lemma dfs_visited_mono_dom:
  "dfs_dfs_callees_dom (Inl (G, target, node, s)) \<Longrightarrow>
     set (visited s) \<subseteq> set (visited (snd (dfs G target node s)))"
  "dfs_dfs_callees_dom (Inr (G, target, cs, s)) \<Longrightarrow>
     set (visited s) \<subseteq> set (visited (snd (dfs_callees G target cs s)))"
proof (induction G target node s and G target cs s rule: dfs_dfs_callees.pinduct)
  case (1 G target node s)
  then show ?case
    by (auto simp: dfs.psimps Let_def split: prod.splits if_splits)
next
  case (2 G target s)
  then show ?case by (simp add: dfs_callees.psimps)
next
  case (3 G target callee rest s)
  obtain b s' where eq: "dfs G target callee s = (b, s')" by fastforce
  from "3.IH"(1) eq have m1: "set (visited s) \<subseteq> set (visited s')" by simp
  show ?case
  proof (cases b)
    case True
    with eq m1 "3.hyps" show ?thesis by (simp add: dfs_callees.psimps)
  next
    case False
    from "3.IH"(2) [OF refl eq [symmetric] False]
    have "set (visited s') \<subseteq> set (visited (snd (dfs_callees G target rest s')))" .
    with eq m1 False "3.hyps" show ?thesis by (simp add: dfs_callees.psimps)
  qed
qed

text \<open>
  The search stops on every graph: a call of \<open>dfs\<close> on an unvisited node takes that node
  out of the finite set of nodes not yet visited, and the loop has one callee less to
  look at.
\<close>

lemma dfs_total: "All dfs_dfs_callees_dom"
proof (relation "inv_image (less_than <*lex*> less_than)
    (\<lambda>x. case x of
        Inl (G, target, node, s) \<Rightarrow>
          (card (insert node (callee_nodes G) - set (visited s)), 0)
      | Inr (G, target, cs, s) \<Rightarrow>
          (card ((callee_nodes G \<union> set cs) - set (visited s)), Suc (length cs)))",
    goal_cases)
  case 1
  show ?case by auto
next
  case (2 G target node s x)
  have "callee_nodes G \<union> set (dict_get G node) = callee_nodes G"
    using dict_get_subset [of G node] by blast
  moreover have "callee_nodes G - insert node (set (visited s))
      \<subset> insert node (callee_nodes G) - set (visited s)"
    using 2(1) by blast
  then have "card (callee_nodes G - insert node (set (visited s)))
      < card (insert node (callee_nodes G) - set (visited s))"
    by (intro psubset_card_mono) (simp_all add: finite_callee_nodes)
  ultimately show ?case using 2 by simp
next
  case (3 G target callee rest s)
  have "insert callee (callee_nodes G) - set (visited s)
      \<subseteq> (callee_nodes G \<union> set (callee # rest)) - set (visited s)"
    by auto
  then have "card (insert callee (callee_nodes G) - set (visited s))
      \<le> card ((callee_nodes G \<union> set (callee # rest)) - set (visited s))"
    by (intro card_mono) (simp_all add: finite_callee_nodes)
  then show ?case by auto
next
  case (4 G target callee rest s x xa y)
  then have "set (visited s) \<subseteq> set (visited y)"
    using dfs_visited_mono_dom(1) [of G target callee s] by (metis snd_conv)
  then have "(callee_nodes G \<union> set rest) - set (visited y)
      \<subseteq> (callee_nodes G \<union> set (callee # rest)) - set (visited s)"
    by auto
  then have "card ((callee_nodes G \<union> set rest) - set (visited y))
      \<le> card ((callee_nodes G \<union> set (callee # rest)) - set (visited s))"
    by (intro card_mono) (simp_all add: finite_callee_nodes)
  then show ?case by auto
qed

termination dfs
  by (rule dfs_total)

declare dfs.simps [simp del]

definition dfs_init :: dfs_state where
  "dfs_init = \<lparr>visited = [], current_path = [], path = [], visit_log = []\<rparr>"

definition get_call_path :: "call_graph \<Rightarrow> func \<Rightarrow> func \<Rightarrow> func list" where
  "get_call_path G start target = path (snd (dfs G target start dfs_init))"

section \<open>\<open>get_preceding_dependent_funcs\<close>\<close>

text \<open>
  The body of the loop over \<open>call_sites.items()\<close> for one caller; \<open>any\<close> is \<open>list_ex\<close>.
\<close>

definition preceding_in_caller :: "func \<Rightarrow> (func \<times> int) list \<Rightarrow> func pyset \<Rightarrow> func pyset" where
  "preceding_in_caller target_func callee_infos dependent_funcs =
     (let target_lines = [line. (callee, line) \<leftarrow> callee_infos, callee = target_func] in
      if target_lines = [] then dependent_funcs
      else fold (\<lambda>(callee, line) deps.
                   if list_ex (\<lambda>tgt_line. line < tgt_line) target_lines \<and> callee \<noteq> target_func
                   then pyset_add callee deps else deps)
             callee_infos dependent_funcs)"

definition get_preceding_dependent_funcs :: "call_sites \<Rightarrow> func \<Rightarrow> func pyset" where
  "get_preceding_dependent_funcs call_sites target_func =
     fold (\<lambda>(caller, callee_infos). preceding_in_caller target_func callee_infos) call_sites []"

section \<open>\<open>get_recursive_dependencies\<close>\<close>

text \<open>
  The state of the \<open>while\<close> loop. \<open>enqueue_log\<close> is a ghost field, not a variable of the
  program: it records, in order, every function that is put into the queue, by
  \<open>deque(initial_funcs)\<close> or by \<open>queue.append\<close>.
\<close>

record bfs_state =
  all_deps :: "func pyset"
  queue :: "func list"
  enqueue_log :: "func list"

text \<open>The \<open>for\<close> loop over the callees of the function just taken from the queue.\<close>

fun scan_callees :: "func list \<Rightarrow> bfs_state \<Rightarrow> bfs_state" where
  "scan_callees [] s = s"
| "scan_callees (callee # rest) s =
     scan_callees rest
       (if callee \<notin> set (all_deps s)
        then s\<lparr>all_deps := pyset_add callee (all_deps s),
               queue := queue s @ [callee],
               enqueue_log := enqueue_log s @ [callee]\<rparr>
        else s)"

function bfs_loop :: "call_graph \<Rightarrow> bfs_state \<Rightarrow> bfs_state" where
  "bfs_loop G s =
     (case queue s of
        [] \<Rightarrow> s
      | func # rest \<Rightarrow> bfs_loop G (scan_callees (dict_get G func) (s\<lparr>queue := rest\<rparr>)))"
  by pat_completeness auto

lemma scan_callees_new:
  "\<exists>new. all_deps (scan_callees cs s) = all_deps s @ new
        \<and> queue (scan_callees cs s) = queue s @ new
        \<and> enqueue_log (scan_callees cs s) = enqueue_log s @ new
        \<and> distinct new \<and> set new = set cs - set (all_deps s)"
proof (induction cs arbitrary: s)
  case Nil
  show ?case by simp
next
  case (Cons c cs)
  show ?case
  proof (cases "c \<in> set (all_deps s)")
    case True
    from Cons.IH [of s] obtain new where
      "all_deps (scan_callees cs s) = all_deps s @ new"
      "queue (scan_callees cs s) = queue s @ new"
      "enqueue_log (scan_callees cs s) = enqueue_log s @ new"
      "distinct new" "set new = set cs - set (all_deps s)" by blast
    with True show ?thesis by auto
  next
    case False
    let ?s1 = "s\<lparr>all_deps := pyset_add c (all_deps s), queue := queue s @ [c],
                 enqueue_log := enqueue_log s @ [c]\<rparr>"
    from Cons.IH [of ?s1] obtain new where n:
      "all_deps (scan_callees cs ?s1) = all_deps ?s1 @ new"
      "queue (scan_callees cs ?s1) = queue ?s1 @ new"
      "enqueue_log (scan_callees cs ?s1) = enqueue_log ?s1 @ new"
      "distinct new" "set new = set cs - set (all_deps ?s1)" by blast
    have "all_deps (scan_callees (c # cs) s) = all_deps s @ (c # new)"
      using False n(1) by (simp add: pyset_add_def)
    moreover have "queue (scan_callees (c # cs) s) = queue s @ (c # new)"
      using False n(2) by simp
    moreover have "enqueue_log (scan_callees (c # cs) s) = enqueue_log s @ (c # new)"
      using False n(3) by simp
    moreover have "distinct (c # new)" using n(4,5) by simp
    moreover have "set (c # new) = set (c # cs) - set (all_deps s)"
      using False n(5) by auto
    ultimately show ?thesis by blast
  qed
qed

text \<open>
  The loop stops on every graph: a turn either adds a callee of the graph to \<open>all_deps\<close>
  or leaves \<open>all_deps\<close> as it is and the queue one shorter.
\<close>

lemma bfs_total: "All bfs_loop_dom"
proof (relation "inv_image (less_than <*lex*> less_than)
    (\<lambda>(G, s). (card (callee_nodes G - set (all_deps s)), length (queue s)))", goal_cases)
  case 1
  show ?case by auto
next
  case (2 G s f rest)
  let ?s0 = "s\<lparr>queue := rest\<rparr>"
  obtain new where n:
    "all_deps (scan_callees (dict_get G f) ?s0) = all_deps ?s0 @ new"
    "queue (scan_callees (dict_get G f) ?s0) = queue ?s0 @ new"
    "set new = set (dict_get G f) - set (all_deps ?s0)"
    using scan_callees_new [of "dict_get G f" ?s0] by blast
  show ?case
  proof (cases "new = []")
    case True
    with n 2 show ?thesis by simp
  next
    case False
    then obtain x where x: "x \<in> set new" by (cases new) auto
    with n(3) dict_get_subset [of G f] have "x \<in> callee_nodes G" "x \<notin> set (all_deps s)"
      by auto
    with x have "callee_nodes G - set (all_deps s @ new) \<subset> callee_nodes G - set (all_deps s)"
      by auto
    then have "card (callee_nodes G - set (all_deps s @ new)) < card (callee_nodes G - set (all_deps s))"
      by (intro psubset_card_mono) (simp_all add: finite_callee_nodes)
    with n show ?thesis by simp
  qed
qed

termination bfs_loop
  by (rule bfs_total)

declare bfs_loop.simps [simp del]

text \<open>The state before the loop: \<open>set(initial_funcs)\<close> and \<open>deque(initial_funcs)\<close>.\<close>

definition bfs_init :: "func list \<Rightarrow> bfs_state" where
  "bfs_init initial_funcs =
     \<lparr>all_deps = pyset_of initial_funcs, queue = initial_funcs, enqueue_log = initial_funcs\<rparr>"

definition get_recursive_dependencies :: "call_graph \<Rightarrow> func list \<Rightarrow> func pyset" where
  "get_recursive_dependencies G initial_funcs = all_deps (bfs_loop G (bfs_init initial_funcs))"

section \<open>\<open>expand_by_internal_calls\<close>\<close>

text \<open>
  The state of the \<open>while\<close> loop: the set \<open>expanded\<close> and the queue, here \<open>pending\<close>
  (\<open>queue\<close> is the field of the loop above).
\<close>

record expand_state =
  expanded :: "func pyset"
  pending :: "func list"

text \<open>The loop over the callees of one basic block, and the loop over the blocks.\<close>

fun expand_block :: "func list \<Rightarrow> expand_state \<Rightarrow> expand_state" where
  "expand_block [] s = s"
| "expand_block (callee # rest) s =
     expand_block rest
       (if callee \<notin> set (expanded s)
        then s\<lparr>expanded := pyset_add callee (expanded s), pending := pending s @ [callee]\<rparr>
        else s)"

fun expand_blocks :: "func list list \<Rightarrow> expand_state \<Rightarrow> expand_state" where
  "expand_blocks [] s = s"
| "expand_blocks (bb # bbs) s = expand_blocks bbs (expand_block bb s)"

function expand_loop :: "bb_calls \<Rightarrow> expand_state \<Rightarrow> expand_state" where
  "expand_loop bb_calls s =
     (case pending s of
        [] \<Rightarrow> s
      | func # rest \<Rightarrow>
          expand_loop bb_calls (expand_blocks (dict_get bb_calls func) (s\<lparr>pending := rest\<rparr>)))"
  by pat_completeness auto

lemma expand_block_new:
  "\<exists>new. expanded (expand_block cs s) = expanded s @ new
        \<and> pending (expand_block cs s) = pending s @ new
        \<and> set new = set cs - set (expanded s)"
proof (induction cs arbitrary: s)
  case Nil
  show ?case by simp
next
  case (Cons c cs)
  show ?case
  proof (cases "c \<in> set (expanded s)")
    case True
    from Cons.IH [of s] obtain new where
      "expanded (expand_block cs s) = expanded s @ new"
      "pending (expand_block cs s) = pending s @ new"
      "set new = set cs - set (expanded s)" by blast
    with True show ?thesis by auto
  next
    case False
    let ?s1 = "s\<lparr>expanded := pyset_add c (expanded s), pending := pending s @ [c]\<rparr>"
    from Cons.IH [of ?s1] obtain new where n:
      "expanded (expand_block cs ?s1) = expanded ?s1 @ new"
      "pending (expand_block cs ?s1) = pending ?s1 @ new"
      "set new = set cs - set (expanded ?s1)" by blast
    have "expanded (expand_block (c # cs) s) = expanded s @ (c # new)"
      using False n(1) by (simp add: pyset_add_def)
    moreover have "pending (expand_block (c # cs) s) = pending s @ (c # new)"
      using False n(2) by simp
    moreover have "set (c # new) = set (c # cs) - set (expanded s)"
      using False n(3) by auto
    ultimately show ?thesis by blast
  qed
qed

lemma expand_blocks_new:
  "\<exists>new. expanded (expand_blocks bbs s) = expanded s @ new
        \<and> pending (expand_blocks bbs s) = pending s @ new
        \<and> set new = set (concat bbs) - set (expanded s)"
proof (induction bbs arbitrary: s)
  case Nil
  show ?case by simp
next
  case (Cons bb bbs)
  obtain n1 where n1:
    "expanded (expand_block bb s) = expanded s @ n1"
    "pending (expand_block bb s) = pending s @ n1"
    "set n1 = set bb - set (expanded s)"
    using expand_block_new [of bb s] by blast
  obtain n2 where n2:
    "expanded (expand_blocks bbs (expand_block bb s)) = expanded (expand_block bb s) @ n2"
    "pending (expand_blocks bbs (expand_block bb s)) = pending (expand_block bb s) @ n2"
    "set n2 = set (concat bbs) - set (expanded (expand_block bb s))"
    using Cons.IH [of "expand_block bb s"] by blast
  have "expanded (expand_blocks (bb # bbs) s) = expanded s @ (n1 @ n2)"
    using n1(1) n2(1) by simp
  moreover have "pending (expand_blocks (bb # bbs) s) = pending s @ (n1 @ n2)"
    using n1(2) n2(2) by simp
  moreover have "set (n1 @ n2) = set (concat (bb # bbs)) - set (expanded s)"
    using n1(1,3) n2(3) by auto
  ultimately show ?case by blast
qed

text \<open>Every function that occurs in a basic block of \<open>bb_calls\<close>.\<close>

definition block_nodes :: "bb_calls \<Rightarrow> func set" where
  "block_nodes B = (\<Union>(k, bbs) \<in> set B. set (concat bbs))"

lemma finite_block_nodes: "finite (block_nodes B)"
  by (auto simp: block_nodes_def)

lemma dict_get_blocks_subset: "set (concat (dict_get B f)) \<subseteq> block_nodes B"
proof (cases "map_of B f")
  case None
  then show ?thesis by (simp add: dict_get_def)
next
  case (Some bbs)
  then have "(f, bbs) \<in> set B" by (rule map_of_SomeD)
  then have "set (concat bbs) \<subseteq> block_nodes B" unfolding block_nodes_def by blast
  with Some show ?thesis by (simp add: dict_get_def)
qed

text \<open>The loop stops for every \<open>bb_calls\<close>, by the argument used for the loop above.\<close>

lemma expand_total: "All expand_loop_dom"
proof (relation "inv_image (less_than <*lex*> less_than)
    (\<lambda>(B, s). (card (block_nodes B - set (expanded s)), length (pending s)))", goal_cases)
  case 1
  show ?case by auto
next
  case (2 B s f rest)
  let ?s0 = "s\<lparr>pending := rest\<rparr>"
  obtain new where n:
    "expanded (expand_blocks (dict_get B f) ?s0) = expanded ?s0 @ new"
    "pending (expand_blocks (dict_get B f) ?s0) = pending ?s0 @ new"
    "set new = set (concat (dict_get B f)) - set (expanded ?s0)"
    using expand_blocks_new [of "dict_get B f" ?s0] by blast
  show ?case
  proof (cases "new = []")
    case True
    with n 2 show ?thesis by simp
  next
    case False
    then obtain x where x: "x \<in> set new" by (cases new) auto
    with n(3) dict_get_blocks_subset [of B f] have "x \<in> block_nodes B" "x \<notin> set (expanded s)"
      by auto
    with x have "block_nodes B - set (expanded s @ new) \<subset> block_nodes B - set (expanded s)"
      by auto
    then have "card (block_nodes B - set (expanded s @ new)) < card (block_nodes B - set (expanded s))"
      by (intro psubset_card_mono) (simp_all add: finite_block_nodes)
    with n show ?thesis by simp
  qed
qed

termination expand_loop
  by (rule expand_total)

declare expand_loop.simps [simp del]

definition expand_by_internal_calls :: "func list \<Rightarrow> bb_calls \<Rightarrow> func pyset" where
  "expand_by_internal_calls func_list bb_calls =
     expanded (expand_loop bb_calls \<lparr>expanded = pyset_of func_list, pending = func_list\<rparr>)"

section \<open>\<open>compute_instrumentation_set\<close>\<close>

text \<open>The value of \<open>combined\<close> for one target.\<close>

definition combined :: "call_graph \<Rightarrow> call_sites \<Rightarrow> bb_calls \<Rightarrow> func \<Rightarrow> func \<Rightarrow> func pyset" where
  "combined G call_sites bb_calls entry_func target_func =
     (let forward_path = get_call_path G entry_func target_func;
          direct_deps = get_preceding_dependent_funcs call_sites target_func;
          recursive_deps = get_recursive_dependencies G direct_deps;
          bb_expanded = expand_by_internal_calls recursive_deps bb_calls
      in pyset_union (pyset_union (pyset_of forward_path) recursive_deps) bb_expanded)"

definition compute_instrumentation_set ::
  "call_graph \<Rightarrow> call_sites \<Rightarrow> bb_calls \<Rightarrow> func \<Rightarrow> func list \<Rightarrow> func pyset" where
  "compute_instrumentation_set G call_sites bb_calls entry_func target_funcs =
     fold (\<lambda>target_func instrumentation_funcs.
             pyset_union instrumentation_funcs (combined G call_sites bb_calls entry_func target_func))
       target_funcs []"

section \<open>Call edges and reachability\<close>

text \<open>The call edges of a graph, as \<open>call_graph.get\<close> reads them.\<close>

definition calls :: "call_graph \<Rightarrow> (func \<times> func) set" where
  "calls G = {(f, c). c \<in> set (dict_get G f)}"

section \<open>Properties of \<open>get_call_path\<close>\<close>

text \<open>
  \<open>x # ys\<close> is a chain of call edges that ends in the target: each element is in the
  callee list of the one before it.
\<close>

definition call_chain :: "call_graph \<Rightarrow> func \<Rightarrow> func list \<Rightarrow> func \<Rightarrow> bool" where
  "call_chain G x ys target \<longleftrightarrow>
     successively (\<lambda>u v. v \<in> set (dict_get G u)) (x # ys) \<and> last (x # ys) = target"

text \<open>
  What a call of \<open>dfs\<close> or a run of its loop leaves behind, \<open>firsts\<close> being the nodes
  it may start from: on failure \<open>current_path\<close> and \<open>path\<close> are as before; on success
  \<open>current_path\<close> has grown by a chain of call edges from one of \<open>firsts\<close> to the
  target, and \<open>path\<close> by the whole of \<open>current_path\<close>.
\<close>

definition dfs_post :: "call_graph \<Rightarrow> func \<Rightarrow> func set \<Rightarrow> dfs_state \<Rightarrow> bool \<times> dfs_state \<Rightarrow> bool" where
  "dfs_post G target firsts s r =
     (if fst r
      then (\<exists>c ys. c \<in> firsts \<and> current_path (snd r) = current_path s @ c # ys
              \<and> call_chain G c ys target
              \<and> path (snd r) = path s @ current_path (snd r))
      else current_path (snd r) = current_path s \<and> path (snd r) = path s)"

lemma call_chain_Nil: "call_chain G target [] target"
  by (simp add: call_chain_def)

lemma call_chain_Cons:
  "c \<in> set (dict_get G node) \<Longrightarrow> call_chain G c ys target \<Longrightarrow> call_chain G node (c # ys) target"
  by (simp add: call_chain_def)

lemma dfs_post_mono:
  "dfs_post G target firsts s r \<Longrightarrow> firsts \<subseteq> firsts' \<Longrightarrow> dfs_post G target firsts' s r"
  unfolding dfs_post_def by (cases "fst r") auto

lemma dfs_post_shift:
  "current_path s' = current_path s \<Longrightarrow> path s' = path s \<Longrightarrow> dfs_post G target firsts s' r
     \<Longrightarrow> dfs_post G target firsts s r"
  by (cases "fst r") (simp_all add: dfs_post_def)

lemma dfs_spec:
  "dfs_post G target {node} s (dfs G target node s)"
  "dfs_post G target (set cs) s (dfs_callees G target cs s)"
proof (induction G target node s and G target cs s rule: dfs_dfs_callees.induct)
  case (1 G target node s)
  let ?s1 = "s\<lparr>visited := pyset_add node (visited s), visit_log := visit_log s @ [node],
               current_path := current_path s @ [node]\<rparr>"
  show ?case
  proof (cases "node \<in> set (visited s)")
    case True
    then have "dfs G target node s = (False, s)" by (subst dfs.simps) simp
    then show ?thesis by (simp add: dfs_post_def)
  next
    case unvisited: False
    show ?thesis
    proof (cases "node = target")
      case True
      with unvisited
      have "dfs G target node s = (True, ?s1\<lparr>path := path ?s1 @ current_path ?s1\<rparr>)"
        by (subst dfs.simps) simp
      with True show ?thesis by (simp add: dfs_post_def call_chain_Nil)
    next
      case False
      obtain b s2 where r: "dfs_callees G target (dict_get G node) ?s1 = (b, s2)"
        by fastforce
      from "1.IH" [OF unvisited refl False] r
      have post: "dfs_post G target (set (dict_get G node)) ?s1 (b, s2)" by simp
      show ?thesis
      proof (cases b)
        case True
        with post obtain c ys where c: "c \<in> set (dict_get G node)"
          and cp: "current_path s2 = current_path s @ node # c # ys"
          and ch: "call_chain G c ys target"
          and pa: "path s2 = path s @ current_path s2"
          by (auto simp: dfs_post_def)
        from c ch have "call_chain G node (c # ys) target" by (rule call_chain_Cons)
        moreover have "dfs G target node s = (True, s2)"
          using unvisited False r True by (subst dfs.simps) simp
        ultimately show ?thesis using cp pa by (auto simp: dfs_post_def)
      next
        case fail: False
        with post have "current_path s2 = current_path s @ [node]" "path s2 = path s"
          by (auto simp: dfs_post_def)
        moreover have "dfs G target node s = (False, s2\<lparr>current_path := butlast (current_path s2)\<rparr>)"
          using unvisited False r fail by (subst dfs.simps) simp
        ultimately show ?thesis by (simp add: dfs_post_def)
      qed
    qed
  qed
next
  case (2 G target s)
  show ?case by (simp add: dfs_post_def)
next
  case (3 G target callee rest s)
  obtain b s' where r: "dfs G target callee s = (b, s')" by fastforce
  from "3.IH"(1) r have p1: "dfs_post G target {callee} s (b, s')" by simp
  show ?case
  proof (cases b)
    case True
    with r have "dfs_callees G target (callee # rest) s = (b, s')" by simp
    moreover from p1 have "dfs_post G target (set (callee # rest)) s (b, s')"
      by (rule dfs_post_mono) simp
    ultimately show ?thesis by simp
  next
    case False
    with p1 have same: "current_path s' = current_path s" "path s' = path s"
      by (auto simp: dfs_post_def)
    from "3.IH"(2) [OF refl r [symmetric] False]
    have "dfs_post G target (set rest) s' (dfs_callees G target rest s')" .
    then have "dfs_post G target (set (callee # rest)) s (dfs_callees G target rest s')"
      by (intro dfs_post_mono [OF dfs_post_shift [OF same]]) auto
    moreover have "dfs_callees G target (callee # rest) s = dfs_callees G target rest s'"
      using r False by simp
    ultimately show ?thesis by simp
  qed
qed

lemma dfs_failure_restores:
  "dfs_callees G target cs s = (False, s') \<Longrightarrow> current_path s' = current_path s"
  using dfs_spec(2) [of G target cs s] by (simp add: dfs_post_def)

lemma get_call_path_shape:
  "get_call_path G start target = [] \<or>
   (\<exists>ys. get_call_path G start target = start # ys
      \<and> successively (\<lambda>u v. v \<in> set (dict_get G u)) (start # ys)
      \<and> last (start # ys) = target)"
proof (cases "fst (dfs G target start dfs_init)")
  case True
  with dfs_spec(1) [of G target start dfs_init] obtain ys
    where "path (snd (dfs G target start dfs_init)) = start # ys" "call_chain G start ys target"
    by (auto simp: dfs_post_def dfs_init_def)
  then show ?thesis by (simp add: get_call_path_def call_chain_def)
next
  case False
  with dfs_spec(1) [of G target start dfs_init] show ?thesis
    by (simp add: dfs_post_def get_call_path_def dfs_init_def)
qed

lemma chain_reaches:
  "successively (\<lambda>u v. v \<in> set (dict_get G u)) (x # ys) \<Longrightarrow> (x, last (x # ys)) \<in> (calls G)\<^sup>*"
proof (induction ys arbitrary: x)
  case Nil
  show ?case by simp
next
  case (Cons y ys)
  then have "(x, y) \<in> calls G" and "(y, last (y # ys)) \<in> (calls G)\<^sup>*"
    by (simp_all add: calls_def)
  then show ?case by (simp add: converse_rtrancl_into_rtrancl)
qed

text \<open>
  The ghost log stays free of repetitions and lists exactly the visited nodes.
\<close>

lemma dfs_log_inv:
  "distinct (visit_log s) \<and> set (visit_log s) = set (visited s) \<Longrightarrow>
     distinct (visit_log (snd (dfs G target node s)))
     \<and> set (visit_log (snd (dfs G target node s))) = set (visited (snd (dfs G target node s)))"
  "distinct (visit_log s) \<and> set (visit_log s) = set (visited s) \<Longrightarrow>
     distinct (visit_log (snd (dfs_callees G target cs s)))
     \<and> set (visit_log (snd (dfs_callees G target cs s))) = set (visited (snd (dfs_callees G target cs s)))"
proof (induction G target node s and G target cs s rule: dfs_dfs_callees.induct)
  case (1 G target node s)
  let ?s1 = "s\<lparr>visited := pyset_add node (visited s), visit_log := visit_log s @ [node],
               current_path := current_path s @ [node]\<rparr>"
  show ?case
  proof (cases "node \<in> set (visited s)")
    case True
    then have "dfs G target node s = (False, s)" by (subst dfs.simps) simp
    with "1.prems" show ?thesis by simp
  next
    case unvisited: False
    with "1.prems" have inv1: "distinct (visit_log ?s1) \<and> set (visit_log ?s1) = set (visited ?s1)"
      by simp
    show ?thesis
    proof (cases "node = target")
      case True
      with unvisited
      have "dfs G target node s = (True, ?s1\<lparr>path := path ?s1 @ current_path ?s1\<rparr>)"
        by (subst dfs.simps) simp
      with inv1 show ?thesis by simp
    next
      case False
      obtain b s2 where r: "dfs_callees G target (dict_get G node) ?s1 = (b, s2)"
        by fastforce
      from "1.IH" [OF unvisited refl False inv1] r
      have "distinct (visit_log s2) \<and> set (visit_log s2) = set (visited s2)" by simp
      moreover have "dfs G target node s
          = (b, if b then s2 else s2\<lparr>current_path := butlast (current_path s2)\<rparr>)"
        using unvisited False r by (subst dfs.simps) simp
      ultimately show ?thesis by simp
    qed
  qed
next
  case (2 G target s)
  then show ?case by simp
next
  case (3 G target callee rest s)
  obtain b s' where r: "dfs G target callee s = (b, s')" by fastforce
  from "3.IH"(1) [OF "3.prems"] r
  have inv': "distinct (visit_log s') \<and> set (visit_log s') = set (visited s')" by simp
  show ?case
  proof (cases b)
    case True
    with r inv' show ?thesis by simp
  next
    case False
    from "3.IH"(2) [OF refl r [symmetric] False inv'] r False
    show ?thesis by simp
  qed
qed


text \<open>The first scenario of the specification: the path from \<open>A\<close> to \<open>D\<close>.\<close>

lemma example_path:
  "get_call_path [(''A'', [''B'', ''C'']), (''B'', [''D''])] ''A'' ''D'' = [''A'', ''B'', ''D'']"
  by (simp add: get_call_path_def dfs_init_def dfs.simps dict_get_def pyset_add_def)

text \<open>
  C3: for every call graph, entry function \<open>e\<close> and target \<open>t\<close>, a non-empty result of
  \<open>get_call_path\<close> starts with \<open>e\<close>, ends with \<open>t\<close>, and each of its elements is in
  the callee list that the graph records for the element before it.
\<close>

theorem get_call_path_valid:
  assumes "get_call_path G e t \<noteq> []"
  shows "hd (get_call_path G e t) = e \<and> last (get_call_path G e t) = t
       \<and> successively (\<lambda>u v. v \<in> set (dict_get G u)) (get_call_path G e t)"
  using assms get_call_path_shape [of G e t] by auto

theorem get_call_path_valid_witness:
  "get_call_path [(''A'', [''B'', ''C'']), (''B'', [''D''])] ''A'' ''D'' \<noteq> []
   \<and> hd (get_call_path [(''A'', [''B'', ''C'']), (''B'', [''D''])] ''A'' ''D'') = ''A''
   \<and> last (get_call_path [(''A'', [''B'', ''C'']), (''B'', [''D''])] ''A'' ''D'') = ''D''
   \<and> successively (\<lambda>u v. v \<in> set (dict_get [(''A'', [''B'', ''C'']), (''B'', [''D''])] u))
        (get_call_path [(''A'', [''B'', ''C'']), (''B'', [''D''])] ''A'' ''D'')"
proof -
  have h: "get_call_path [(''A'', [''B'', ''C'']), (''B'', [''D''])] ''A'' ''D'' \<noteq> []"
    by (simp add: example_path)
  show ?thesis using h get_call_path_valid [OF h] by simp
qed

text \<open>
  C7, as stated: a start function with no recorded outgoing edges gives the empty
  sequence. It fails where the start function is the target: the result is then the
  one-element path, whatever the graph records.
\<close>

theorem get_call_path_absent_start_counterexample:
  "dict_get [] ''main'' = [] \<and> get_call_path [] ''main'' ''main'' \<noteq> []"
  by (simp add: dict_get_def get_call_path_def dfs_init_def dfs.simps [of "[]" "''main''" "''main''"])

text \<open>
  C7, amended: if the start function has no recorded outgoing edges and is not the
  target, or if the target cannot be reached from the start function along call edges
  (in no step or more), then \<open>get_call_path\<close> returns the empty sequence.
\<close>

theorem get_call_path_unreachable:
  assumes "(dict_get G start = [] \<and> start \<noteq> target) \<or> (start, target) \<notin> (calls G)\<^sup>*"
  shows "get_call_path G start target = []"
proof -
  have "(start, target) \<notin> (calls G)\<^sup>*"
  proof
    assume reach: "(start, target) \<in> (calls G)\<^sup>*"
    with assms have leaf: "dict_get G start = []" and ne: "start \<noteq> target" by auto
    from reach ne obtain z where "(start, z) \<in> calls G"
      by (auto elim: converse_rtranclE)
    with leaf show False by (simp add: calls_def)
  qed
  with get_call_path_shape [of G start target] chain_reaches [of G start]
  show ?thesis by metis
qed

theorem get_call_path_unreachable_witness:
  "((dict_get [(''A'', [''B''])] ''C'' = [] \<and> ''C'' \<noteq> ''B'')
      \<or> (''C'', ''B'') \<notin> (calls [(''A'', [''B''])])\<^sup>*)
   \<and> get_call_path [(''A'', [''B''])] ''C'' ''B'' = []"
proof -
  have h: "(dict_get [(''A'', [''B''])] ''C'' = [] \<and> ''C'' \<noteq> ''B'')
      \<or> (''C'', ''B'') \<notin> (calls [(''A'', [''B''])])\<^sup>*"
    by (simp add: dict_get_def)
  show ?thesis using h get_call_path_unreachable [OF h] by simp
qed

text \<open>
  C8: for every call graph and every function \<open>s\<close>, the path from \<open>s\<close> to \<open>s\<close> is the
  one-element sequence \<open>[s]\<close>.
\<close>

theorem get_call_path_start_is_target: "get_call_path G s s = [s]"
  by (simp add: get_call_path_def dfs_init_def dfs.simps)

theorem get_call_path_start_is_target_witness:
  "get_call_path [(''A'', [''B'']), (''B'', [''A''])] ''B'' ''B'' = [''B'']"
  using get_call_path_start_is_target [of "[(''A'', [''B'']), (''B'', [''A''])]" "''B''"] .

section \<open>Properties of \<open>get_recursive_dependencies\<close>\<close>

lemma set_fold_pyset_add: "set (fold pyset_add xs S) = set S \<union> set xs"
  by (induction xs arbitrary: S) auto

lemma distinct_fold_pyset_add: "distinct S \<Longrightarrow> distinct (fold pyset_add xs S)"
  by (induction xs arbitrary: S) (auto simp: pyset_add_def)

lemma set_pyset_of [simp]: "set (pyset_of xs) = set xs"
  by (simp add: pyset_of_def set_fold_pyset_add)

lemma set_pyset_union [simp]: "set (pyset_union S xs) = set S \<union> set xs"
  by (simp add: pyset_union_def set_fold_pyset_add)

text \<open>
  The invariant of the \<open>while\<close> loop, \<open>S\<close> being the seeds: the seeds and the queue are
  in \<open>all_deps\<close>, every member of \<open>all_deps\<close> that is no longer in the queue has all its
  callees in \<open>all_deps\<close>, and every member of \<open>all_deps\<close> is reachable from a seed.
\<close>

definition bfs_inv :: "call_graph \<Rightarrow> func set \<Rightarrow> bfs_state \<Rightarrow> bool" where
  "bfs_inv G S s \<longleftrightarrow>
     S \<subseteq> set (all_deps s) \<and> set (queue s) \<subseteq> set (all_deps s)
     \<and> (\<forall>f \<in> set (all_deps s) - set (queue s). set (dict_get G f) \<subseteq> set (all_deps s))
     \<and> set (all_deps s) \<subseteq> (calls G)\<^sup>* `` S"

text \<open>The ghost log is a list without repetition of members of \<open>all_deps\<close>.\<close>

definition log_inv :: "bfs_state \<Rightarrow> bool" where
  "log_inv s \<longleftrightarrow> distinct (enqueue_log s) \<and> set (enqueue_log s) \<subseteq> set (all_deps s)"

lemma bfs_inv_step:
  assumes inv: "bfs_inv G S s" and q: "queue s = f # rest"
  shows "bfs_inv G S (scan_callees (dict_get G f) (s\<lparr>queue := rest\<rparr>))"
proof -
  let ?s' = "scan_callees (dict_get G f) (s\<lparr>queue := rest\<rparr>)"
  obtain new where n: "all_deps ?s' = all_deps s @ new" "queue ?s' = rest @ new"
    "set new = set (dict_get G f) - set (all_deps s)"
    using scan_callees_new [of "dict_get G f" "s\<lparr>queue := rest\<rparr>"] by auto
  from inv q have f_in: "f \<in> set (all_deps s)" and rest_in: "set rest \<subseteq> set (all_deps s)"
    and closed: "\<And>g. g \<in> set (all_deps s) \<Longrightarrow> g \<noteq> f \<Longrightarrow> g \<notin> set rest
                  \<Longrightarrow> set (dict_get G g) \<subseteq> set (all_deps s)"
    and sound: "set (all_deps s) \<subseteq> (calls G)\<^sup>* `` S" and seeds: "S \<subseteq> set (all_deps s)"
    by (auto simp: bfs_inv_def)
  have 1: "S \<subseteq> set (all_deps ?s')" using seeds n(1) by auto
  have 2: "set (queue ?s') \<subseteq> set (all_deps ?s')" using rest_in n(1,2) by auto
  have 3: "set (dict_get G g) \<subseteq> set (all_deps ?s')"
    if "g \<in> set (all_deps ?s') - set (queue ?s')" for g
  proof (cases "g = f")
    case True
    with n(1,3) show ?thesis by auto
  next
    case False
    from that n(1,2) have "g \<in> set (all_deps s)" "g \<notin> set rest" by auto
    with closed False have "set (dict_get G g) \<subseteq> set (all_deps s)" by blast
    with n(1) show ?thesis by auto
  qed
  have 4: "set (all_deps ?s') \<subseteq> (calls G)\<^sup>* `` S"
  proof
    fix x assume "x \<in> set (all_deps ?s')"
    with n(1) consider "x \<in> set (all_deps s)" | "x \<in> set new" by auto
    then show "x \<in> (calls G)\<^sup>* `` S"
    proof cases
      case 1
      with sound show ?thesis by blast
    next
      case 2
      with n(3) have "(f, x) \<in> calls G" by (simp add: calls_def)
      moreover from f_in sound obtain r where "r \<in> S" "(r, f) \<in> (calls G)\<^sup>*" by blast
      ultimately show ?thesis by (meson Image_iff rtrancl.rtrancl_into_rtrancl)
    qed
  qed
  from 1 2 3 4 show ?thesis unfolding bfs_inv_def by blast
qed

lemma log_inv_step:
  assumes "log_inv s"
  shows "log_inv (scan_callees cs (s\<lparr>queue := rest\<rparr>))"
proof -
  let ?s' = "scan_callees cs (s\<lparr>queue := rest\<rparr>)"
  obtain new where n: "all_deps ?s' = all_deps s @ new" "enqueue_log ?s' = enqueue_log s @ new"
    "distinct new" "set new = set cs - set (all_deps s)"
    using scan_callees_new [of cs "s\<lparr>queue := rest\<rparr>"] by auto
  with assms show ?thesis by (auto simp: log_inv_def)
qed

lemma bfs_loop_inv:
  "bfs_inv G S s \<Longrightarrow> bfs_inv G S (bfs_loop G s) \<and> queue (bfs_loop G s) = []"
proof (induction G s rule: bfs_loop.induct)
  case (1 G s)
  show ?case
  proof (cases "queue s")
    case Nil
    with "1.prems" show ?thesis by (subst (1 2) bfs_loop.simps) simp
  next
    case (Cons f rest)
    from "1.prems" Cons have "bfs_inv G S (scan_callees (dict_get G f) (s\<lparr>queue := rest\<rparr>))"
      by (rule bfs_inv_step)
    from "1.IH" [OF Cons this] Cons show ?thesis by (subst (1 2) bfs_loop.simps) simp
  qed
qed

lemma bfs_loop_log_inv: "log_inv s \<Longrightarrow> log_inv (bfs_loop G s)"
proof (induction G s rule: bfs_loop.induct)
  case (1 G s)
  show ?case
  proof (cases "queue s")
    case Nil
    with "1.prems" show ?thesis by (subst bfs_loop.simps) simp
  next
    case (Cons f rest)
    from "1.prems" have "log_inv (scan_callees (dict_get G f) (s\<lparr>queue := rest\<rparr>))"
      by (rule log_inv_step)
    from "1.IH" [OF Cons this] Cons show ?thesis by (subst bfs_loop.simps) simp
  qed
qed

lemma bfs_inv_init: "bfs_inv G (set S) (bfs_init S)"
  by (auto simp: bfs_inv_def bfs_init_def)

lemma log_inv_init: "distinct S \<Longrightarrow> log_inv (bfs_init S)"
  by (simp add: log_inv_def bfs_init_def)

lemma recursive_deps_facts:
  "set S \<subseteq> set (get_recursive_dependencies G S)"
  "f \<in> set (get_recursive_dependencies G S) \<Longrightarrow> set (dict_get G f) \<subseteq> set (get_recursive_dependencies G S)"
  "set (get_recursive_dependencies G S) \<subseteq> (calls G)\<^sup>* `` set S"
  using bfs_loop_inv [OF bfs_inv_init, of G S]
  by (auto simp: get_recursive_dependencies_def bfs_inv_def)

lemma closed_contains_reachable:
  assumes "(x, y) \<in> (calls G)\<^sup>*" and "x \<in> R" and "\<And>f. f \<in> R \<Longrightarrow> set (dict_get G f) \<subseteq> R"
  shows "y \<in> R"
  using assms(1,2)
proof (induction rule: rtrancl_induct)
  case base
  then show ?case .
next
  case (step y z)
  then have "y \<in> R" by simp
  with assms(3) step.hyps(2) show ?case by (auto simp: calls_def)
qed

lemma recursive_deps_exact:
  "set (get_recursive_dependencies G S) = (calls G)\<^sup>* `` set S"
proof
  show "set (get_recursive_dependencies G S) \<subseteq> (calls G)\<^sup>* `` set S"
    by (rule recursive_deps_facts(3))
  show "(calls G)\<^sup>* `` set S \<subseteq> set (get_recursive_dependencies G S)"
  proof
    fix y assume "y \<in> (calls G)\<^sup>* `` set S"
    then obtain x where "x \<in> set S" "(x, y) \<in> (calls G)\<^sup>*" by blast
    with recursive_deps_facts(1) [of S G] have "x \<in> set (get_recursive_dependencies G S)"
      by blast
    with \<open>(x, y) \<in> (calls G)\<^sup>*\<close> show "y \<in> set (get_recursive_dependencies G S)"
      using recursive_deps_facts(2) by (rule closed_contains_reachable)
  qed
qed

lemma recursive_deps_order_irrelevant:
  "set S = set S' \<Longrightarrow> set (get_recursive_dependencies G S) = set (get_recursive_dependencies G S')"
  by (simp add: recursive_deps_exact)

lemma example_closure:
  "get_recursive_dependencies [(''A'', [''B'', ''C'']), (''B'', [''A'', ''B''])] [''B''] = [''B'', ''A'', ''C'']"
  by code_simp

text \<open>
  C5: for every call graph \<open>G\<close> and seed set \<open>S\<close>, the result of
  \<open>get_recursive_dependencies\<close> contains \<open>S\<close>, and with each function \<open>f\<close> it contains
  every callee that \<open>G\<close> records for \<open>f\<close>.
\<close>

theorem get_recursive_dependencies_closed:
  "set S \<subseteq> set (get_recursive_dependencies G S)
   \<and> (\<forall>f \<in> set (get_recursive_dependencies G S).
        \<forall>c \<in> set (dict_get G f). c \<in> set (get_recursive_dependencies G S))"
  using recursive_deps_facts(1) [of S G] recursive_deps_facts(2) [of _ G S] by blast

theorem get_recursive_dependencies_closed_witness:
  "''A'' \<in> set (get_recursive_dependencies [(''A'', [''B'', ''C'']), (''B'', [''A'', ''B''])] [''B''])
   \<and> ''C'' \<in> set (dict_get [(''A'', [''B'', ''C'']), (''B'', [''A'', ''B''])] ''A'')
   \<and> ''C'' \<in> set (get_recursive_dependencies [(''A'', [''B'', ''C'']), (''B'', [''A'', ''B''])] [''B''])"
proof -
  have f: "''A'' \<in> set (get_recursive_dependencies [(''A'', [''B'', ''C'']), (''B'', [''A'', ''B''])] [''B''])"
    by (simp add: example_closure)
  have c: "''C'' \<in> set (dict_get [(''A'', [''B'', ''C'']), (''B'', [''A'', ''B''])] ''A'')"
    by (simp add: dict_get_def)
  from get_recursive_dependencies_closed
    [of "[''B'']" "[(''A'', [''B'', ''C'']), (''B'', [''A'', ''B''])]"] f c
  show ?thesis by blast
qed

text \<open>
  C10: for every call graph \<open>G\<close> and seed set \<open>S\<close>, the result of
  \<open>get_recursive_dependencies\<close> is exactly \<open>S\<close> together with the functions reachable
  from a member of \<open>S\<close> along one or more call edges, and nothing else.
\<close>

theorem get_recursive_dependencies_minimal:
  "set (get_recursive_dependencies G S) = set S \<union> (calls G)\<^sup>+ `` set S"
proof -
  have "(calls G)\<^sup>* `` set S = set S \<union> (calls G)\<^sup>+ `` set S"
    by (auto simp: rtrancl_eq_or_trancl)
  then show ?thesis by (simp add: recursive_deps_exact)
qed

theorem get_recursive_dependencies_minimal_witness:
  "set [''B'', ''A'', ''C'']
   = set [''B''] \<union> (calls [(''A'', [''B'', ''C'']), (''B'', [''A'', ''B''])])\<^sup>+ `` set [''B'']"
  using get_recursive_dependencies_minimal [of "[(''A'', [''B'', ''C'']), (''B'', [''A'', ''B''])]" "[''B'']"]
  by (simp only: example_closure)

text \<open>
  The seeds that \<open>compute_instrumentation_set\<close> passes are a Python set: the list that
  stands for it has no repetition.
\<close>

lemma distinct_pyset_add: "distinct S \<Longrightarrow> distinct (pyset_add x S)"
  by (simp add: pyset_add_def)

lemma fold_cond_add_distinct:
  "distinct a \<Longrightarrow>
   distinct (fold (\<lambda>(callee, line) deps. if P callee line then pyset_add callee deps else deps) xs a)"
  by (induction xs arbitrary: a) (auto simp: distinct_pyset_add)

lemma preceding_in_caller_distinct:
  "distinct acc \<Longrightarrow> distinct (preceding_in_caller t infos acc)"
  unfolding preceding_in_caller_def Let_def by (simp add: fold_cond_add_distinct)

lemma preceding_dependent_funcs_distinct: "distinct (get_preceding_dependent_funcs call_sites t)"
proof -
  have "distinct (fold (\<lambda>(caller, callee_infos). preceding_in_caller t callee_infos) cs acc)"
    if "distinct acc" for cs acc
    using that by (induction cs arbitrary: acc) (auto simp: preceding_in_caller_distinct)
  from this [of "[]" call_sites] show ?thesis
    unfolding get_preceding_dependent_funcs_def by simp
qed

section \<open>Termination of the two searches\<close>

text \<open>
  C6: on every call graph, cycles and self-loops included, the recursion of
  \<open>get_call_path\<close> and the loop of \<open>get_recursive_dependencies\<close> are well-founded from
  their initial states, the depth-first search gets past the \<open>visited\<close> test at most
  once for each node, and the closure puts each function into the queue at most once,
  for every seed set (a list of seeds without repetition) and so for the seeds that
  \<open>compute_instrumentation_set\<close> passes.
\<close>

theorem searches_terminate:
  "dfs_dfs_callees_dom (Inl (G, target, start, dfs_init))
   \<and> distinct (visit_log (snd (dfs G target start dfs_init)))
   \<and> bfs_loop_dom (G, bfs_init S)
   \<and> (distinct S \<longrightarrow> distinct (enqueue_log (bfs_loop G (bfs_init S))))
   \<and> distinct (enqueue_log
         (bfs_loop G (bfs_init (get_preceding_dependent_funcs call_sites target))))"
proof -
  have "dfs_dfs_callees_dom (Inl (G, target, start, dfs_init))"
    using dfs_total by blast
  moreover have "distinct (visit_log (snd (dfs G target start dfs_init)))"
    using dfs_log_inv(1) [of dfs_init G target start] by (simp add: dfs_init_def)
  moreover have "bfs_loop_dom (G, bfs_init S)"
    using bfs_total by blast
  moreover have enq: "distinct (enqueue_log (bfs_loop G (bfs_init S')))" if "distinct S'" for S'
    using bfs_loop_log_inv [OF log_inv_init [OF that], of G] by (simp add: log_inv_def)
  moreover have "distinct (enqueue_log
      (bfs_loop G (bfs_init (get_preceding_dependent_funcs call_sites target))))"
    by (rule enq) (rule preceding_dependent_funcs_distinct)
  ultimately show ?thesis by blast
qed

theorem searches_terminate_witness:
  "distinct [''B'']
   \<and> distinct (enqueue_log (bfs_loop [(''A'', [''B'', ''C'']), (''B'', [''A'', ''B''])] (bfs_init [''B''])))"
  using searches_terminate [of "[(''A'', [''B'', ''C'']), (''B'', [''A'', ''B''])]" "''C''" "''A''" "[''B'']"]
  by simp

section \<open>Properties of \<open>get_preceding_dependent_funcs\<close>\<close>

lemma fold_cond_add_set:
  "set (fold (\<lambda>(callee, line) deps. if P callee line then pyset_add callee deps else deps) xs a) =
     set a \<union> {f. \<exists>line. (f, line) \<in> set xs \<and> P f line}"
  by (induction xs arbitrary: a) (auto split: if_splits)

lemma preceding_in_caller_set:
  "set (preceding_in_caller t infos acc) =
     set acc \<union> {f. \<exists>line tl. (f, line) \<in> set infos \<and> (t, tl) \<in> set infos \<and> f \<noteq> t \<and> line < tl}"
proof -
  let ?tls = "[line. (callee, line) \<leftarrow> infos, callee = t]"
  let ?step = "\<lambda>(callee, line) deps.
      if list_ex (\<lambda>tgt_line. line < tgt_line) ?tls \<and> callee \<noteq> t
      then pyset_add callee deps else deps"
  have tls: "set ?tls = {tl. (t, tl) \<in> set infos}" by auto
  have loop: "set (fold ?step infos acc) =
      set acc \<union> {f. \<exists>line. (f, line) \<in> set infos \<and> list_ex (\<lambda>tl. line < tl) ?tls \<and> f \<noteq> t}"
    by (rule fold_cond_add_set)
  show ?thesis
  proof (cases "?tls = []")
    case True
    then have "preceding_in_caller t infos acc = acc"
      unfolding preceding_in_caller_def Let_def by (rule if_P)
    moreover from True tls have "\<And>tl. (t, tl) \<notin> set infos" by auto
    ultimately show ?thesis by simp
  next
    case False
    then have "preceding_in_caller t infos acc = fold ?step infos acc"
      unfolding preceding_in_caller_def Let_def by (rule if_not_P)
    with loop have 1: "set (preceding_in_caller t infos acc) =
        set acc \<union> {f. \<exists>line. (f, line) \<in> set infos \<and> list_ex (\<lambda>tl. line < tl) ?tls \<and> f \<noteq> t}"
      by (simp only:)
    have 2: "list_ex (\<lambda>tl. line < tl) ?tls \<longleftrightarrow> (\<exists>tl. (t, tl) \<in> set infos \<and> line < tl)" for line
      unfolding list_ex_iff tls by blast
    show ?thesis unfolding 1 2 by blast
  qed
qed

lemma preceding_fold_set:
  "set (fold (\<lambda>(caller, callee_infos). preceding_in_caller t callee_infos) cs acc) =
     set acc \<union> {f. \<exists>(caller, infos) \<in> set cs. \<exists>line tl.
        (f, line) \<in> set infos \<and> (t, tl) \<in> set infos \<and> f \<noteq> t \<and> line < tl}"
proof (induction cs arbitrary: acc)
  case Nil
  show ?case by simp
next
  case (Cons e cs)
  obtain caller infos where e: "e = (caller, infos)" by (cases e)
  show ?case unfolding e by (simp add: Cons.IH preceding_in_caller_set) blast
qed

text \<open>
  For a dictionary, whose keys are distinct, the entries are what a lookup returns: the
  result in terms of \<open>dict_get\<close>.
\<close>

lemma preceding_dependent_funcs_lookup:
  assumes "distinct (map fst call_sites)"
  shows "set (get_preceding_dependent_funcs call_sites t) =
     {f. \<exists>caller line tl. (f, line) \<in> set (dict_get call_sites caller)
           \<and> (t, tl) \<in> set (dict_get call_sites caller) \<and> f \<noteq> t \<and> line < tl}"
    (is "_ = ?R")
proof -
  have "{f. \<exists>(caller, infos) \<in> set call_sites. \<exists>line tl.
        (f, line) \<in> set infos \<and> (t, tl) \<in> set infos \<and> f \<noteq> t \<and> line < tl} = ?R"
    (is "?L = _")
  proof
    show "?L \<subseteq> ?R"
    proof
      fix f assume "f \<in> ?L"
      then obtain caller infos line tl where e: "(caller, infos) \<in> set call_sites"
        and p: "(f, line) \<in> set infos" "(t, tl) \<in> set infos" "f \<noteq> t" "line < tl"
        by blast
      from assms e have "map_of call_sites caller = Some infos" by simp
      then have "dict_get call_sites caller = infos" by (simp add: dict_get_def)
      with p show "f \<in> ?R" by blast
    qed
    show "?R \<subseteq> ?L"
    proof
      fix f assume "f \<in> ?R"
      then obtain caller line tl where p: "(f, line) \<in> set (dict_get call_sites caller)"
        "(t, tl) \<in> set (dict_get call_sites caller)" "f \<noteq> t" "line < tl"
        by blast
      then obtain infos where m: "map_of call_sites caller = Some infos"
        by (cases "map_of call_sites caller") (auto simp: dict_get_def)
      then have "(caller, infos) \<in> set call_sites" by (rule map_of_SomeD)
      moreover from m have "dict_get call_sites caller = infos" by (simp add: dict_get_def)
      ultimately show "f \<in> ?L" using p by blast
    qed
  qed
  with preceding_fold_set [of t call_sites "[]"] show ?thesis
    by (simp add: get_preceding_dependent_funcs_def)
qed

text \<open>The second scenario of the specification: the calls before \<open>D\<close> in \<open>A\<close>.\<close>

lemma example_preceding:
  "get_preceding_dependent_funcs [(''A'', [(''B'', 1), (''C'', 2), (''D'', 3)])] ''D'' = [''B'', ''C'']"
  by (simp add: get_preceding_dependent_funcs_def preceding_in_caller_def pyset_add_def)

text \<open>
  C4: for every call-site map and target \<open>t\<close>, the result of
  \<open>get_preceding_dependent_funcs\<close> holds exactly the functions \<open>f\<close>, other than \<open>t\<close>, for
  which some caller's entry records a call site \<open>(f, line)\<close> and a call site \<open>(t, tl)\<close>
  with \<open>line < tl\<close>; \<open>t\<close> itself is never in the result.
\<close>

theorem preceding_dependent_funcs_exact:
  "set (get_preceding_dependent_funcs call_sites t) =
     {f. \<exists>(caller, infos) \<in> set call_sites. \<exists>line tl.
        (f, line) \<in> set infos \<and> (t, tl) \<in> set infos \<and> f \<noteq> t \<and> line < tl}
   \<and> t \<notin> set (get_preceding_dependent_funcs call_sites t)"
  by (simp add: get_preceding_dependent_funcs_def preceding_fold_set)

theorem preceding_dependent_funcs_exact_witness:
  "set [''B'', ''C''] =
     {f. \<exists>(caller, infos) \<in> set [(''A'', [(''B'', 1::int), (''C'', 2), (''D'', 3)])]. \<exists>line tl.
        (f, line) \<in> set infos \<and> (''D'', tl) \<in> set infos \<and> f \<noteq> ''D'' \<and> line < tl}
   \<and> ''D'' \<notin> set [''B'', ''C'']"
  using preceding_dependent_funcs_exact [of "[(''A'', [(''B'', 1), (''C'', 2), (''D'', 3)])]" "''D''"]
  unfolding example_preceding .

section \<open>Properties of \<open>compute_instrumentation_set\<close>\<close>

lemma set_combined:
  "set (combined G cs bb e t) =
     set (get_call_path G e t)
     \<union> set (get_recursive_dependencies G (get_preceding_dependent_funcs cs t))
     \<union> set (expand_by_internal_calls (get_recursive_dependencies G (get_preceding_dependent_funcs cs t)) bb)"
  by (simp add: combined_def Let_def)

lemma set_instrumentation_fold:
  "set (fold (\<lambda>t acc. pyset_union acc (combined G cs bb e t)) ts acc) =
     set acc \<union> (\<Union>t \<in> set ts. set (combined G cs bb e t))"
  by (induction ts arbitrary: acc) auto

lemma set_compute_instrumentation_set:
  "set (compute_instrumentation_set G cs bb e ts) = (\<Union>t \<in> set ts. set (combined G cs bb e t))"
  by (simp add: compute_instrumentation_set_def set_instrumentation_fold)

lemma recursive_deps_Nil: "get_recursive_dependencies G [] = []"
  by (simp add: get_recursive_dependencies_def bfs_init_def pyset_of_def bfs_loop.simps)

lemma expand_Nil: "expand_by_internal_calls [] bb = []"
  by (simp add: expand_by_internal_calls_def pyset_of_def expand_loop.simps)

lemma pyset_union_Nil: "pyset_union S [] = S"
  by (simp add: pyset_union_def)

lemma example_instrumentation:
  "compute_instrumentation_set [(''A'', [''B'', ''C'', ''D''])] [(''A'', [(''B'', 1), (''C'', 2), (''D'', 3)])]
     [] ''A'' [''D''] = [''A'', ''D'', ''B'', ''C'']"
  by code_simp

lemma example_unreachable:
  "get_call_path [(''A'', [''B''])] ''A'' ''Z'' = []"
  "get_preceding_dependent_funcs [(''A'', [(''B'', 1)])] ''Z'' = []"
  "compute_instrumentation_set [(''A'', [''B''])] [(''A'', [(''B'', 1)])] [] ''A'' [''Z'', ''B''] = [''A'', ''B'']"
  by code_simp+

text \<open>
  C1: for every call graph, call-site map, \<open>bb_calls\<close> map, entry function and target
  list, and every target \<open>t\<close> in the list, the set returned by
  \<open>compute_instrumentation_set\<close> contains every function of the path found from the
  entry to \<open>t\<close> and every function of the recursive dependencies of the functions
  called before \<open>t\<close>.
\<close>

theorem instrumentation_superset:
  assumes "t \<in> set target_funcs"
  shows "set (get_call_path G entry t)
       \<union> set (get_recursive_dependencies G (get_preceding_dependent_funcs call_sites t))
       \<subseteq> set (compute_instrumentation_set G call_sites bb_calls entry target_funcs)"
  using assms by (auto simp: set_compute_instrumentation_set set_combined)

theorem instrumentation_superset_witness:
  "''D'' \<in> set [''D'']
   \<and> set (get_call_path [(''A'', [''B'', ''C'', ''D''])] ''A'' ''D'')
       \<union> set (get_recursive_dependencies [(''A'', [''B'', ''C'', ''D''])]
               (get_preceding_dependent_funcs [(''A'', [(''B'', 1), (''C'', 2), (''D'', 3)])] ''D''))
     \<subseteq> set (compute_instrumentation_set [(''A'', [''B'', ''C'', ''D''])]
              [(''A'', [(''B'', 1), (''C'', 2), (''D'', 3)])] [] ''A'' [''D''])"
proof -
  have h: "''D'' \<in> set [''D'']" by simp
  show ?thesis using h instrumentation_superset [OF h] by blast
qed

text \<open>
  C2: with \<open>bb_calls\<close> empty, a target \<open>t\<close> for which no path is found and no function is
  called before it contributes the empty set: the result is the same as without \<open>t\<close> in
  the list, whatever targets stand before and after it, and \<open>t\<close> alone gives the empty
  result, so it is not added for being a target.
\<close>

theorem unreachable_target_adds_nothing:
  assumes "get_call_path G entry t = []" and "get_preceding_dependent_funcs call_sites t = []"
  shows "combined G call_sites [] entry t = []
       \<and> compute_instrumentation_set G call_sites [] entry (before @ t # after)
         = compute_instrumentation_set G call_sites [] entry (before @ after)
       \<and> compute_instrumentation_set G call_sites [] entry [t] = []"
proof -
  have c: "combined G call_sites [] entry t = []"
    using assms by (simp add: combined_def recursive_deps_Nil expand_Nil pyset_union_Nil pyset_of_def)
  then show ?thesis
    by (simp add: compute_instrumentation_set_def pyset_union_Nil)
qed

theorem unreachable_target_adds_nothing_witness:
  "get_call_path [(''A'', [''B''])] ''A'' ''Z'' = []
   \<and> get_preceding_dependent_funcs [(''A'', [(''B'', 1)])] ''Z'' = []
   \<and> combined [(''A'', [''B''])] [(''A'', [(''B'', 1)])] [] ''A'' ''Z'' = []
   \<and> compute_instrumentation_set [(''A'', [''B''])] [(''A'', [(''B'', 1)])] [] ''A'' [''Z'', ''B'']
     = compute_instrumentation_set [(''A'', [''B''])] [(''A'', [(''B'', 1)])] [] ''A'' [''B'']
   \<and> compute_instrumentation_set [(''A'', [''B''])] [(''A'', [(''B'', 1)])] [] ''A'' [''Z''] = []"
  using example_unreachable(1,2)
    unreachable_target_adds_nothing [OF example_unreachable(1,2), of "[]" "[''B'']"]
  by simp

section \<open>Properties of \<open>parse_call_graph_file\<close>\<close>

text \<open>
  The field that holds the line number: the text after the last colon of the stripped
  line.
\<close>

definition lineno_field :: "string \<Rightarrow> string" where
  "lineno_field line = rev (takeWhile (\<lambda>c. c \<noteq> CHR '':'') (rev line))"

text \<open>
  A malformed line in the words of the specification: stripped of surrounding white
  space, it lacks a comma or a colon, or its line-number field is not an integer for
  \<open>py_int\<close>.
\<close>

definition malformed :: "(string \<Rightarrow> int option) \<Rightarrow> string \<Rightarrow> bool" where
  "malformed py_int raw \<longleftrightarrow>
     (let line = strip raw in
      CHR '','' \<notin> set line \<or> CHR '':'' \<notin> set line \<or> py_int (lineno_field line) = None)"

lemma split_nonempty: "split sep s \<noteq> []"
  by (induction s) (auto split: list.splits)

lemma split_one: "split sep s = [b] \<Longrightarrow> s = b \<and> sep \<notin> set b"
proof (induction s arbitrary: b)
  case Nil
  then show ?case by simp
next
  case (Cons c cs)
  show ?case
  proof (cases "c = sep")
    case True
    with Cons.prems split_nonempty [of sep cs] show ?thesis by simp
  next
    case False
    with Cons.prems split_nonempty [of sep cs] obtain p where "split sep cs = [p]" "b = c # p"
      by (auto split: list.splits)
    with Cons.IH [of p] False show ?thesis by simp
  qed
qed

lemma split_two: "split sep s = [a, b] \<Longrightarrow> s = a @ sep # b \<and> sep \<notin> set b"
proof (induction s arbitrary: a)
  case Nil
  then show ?case by simp
next
  case (Cons c cs)
  show ?case
  proof (cases "c = sep")
    case True
    with Cons.prems have "a = []" "split sep cs = [b]" by simp_all
    with split_one [of sep cs b] True show ?thesis by simp
  next
    case False
    with Cons.prems obtain p where "split sep cs = [p, b]" "a = c # p"
      by (auto split: list.splits)
    with Cons.IH [of p] show ?thesis by simp
  qed
qed

lemma parse_line_SomeD:
  assumes "parse_line py_int raw = Some (caller, callee, n)"
  shows "\<exists>callee_part lineno. split (CHR '','') (strip raw) = [caller, callee_part]
           \<and> split (CHR '':'') callee_part = [callee, lineno] \<and> py_int lineno = Some n"
  using assms
  by (simp add: parse_line_def Let_def split: if_splits list.splits option.splits)

lemma parsed_lineno_field:
  assumes "split (CHR '','') line = [caller, callee_part]"
    and "split (CHR '':'') callee_part = [callee, lineno]"
  shows "lineno_field line = lineno"
proof -
  from split_two [OF assms(1)] have "line = caller @ CHR '','' # callee_part" by simp
  moreover from split_two [OF assms(2)] have "callee_part = callee @ CHR '':'' # lineno"
    and no_colon: "CHR '':'' \<notin> set lineno"
    by simp_all
  ultimately have "rev line = rev lineno @ CHR '':'' # rev (caller @ CHR '','' # callee)"
    by simp
  moreover have "takeWhile (\<lambda>c. c \<noteq> CHR '':'') (ys @ CHR '':'' # xs) = ys"
    if "CHR '':'' \<notin> set ys" for xs ys :: string
    using that by (induction ys) auto
  from this [of "rev lineno"] no_colon
  have "takeWhile (\<lambda>c. c \<noteq> CHR '':'') (rev lineno @ CHR '':'' # xs) = rev lineno" for xs
    by simp
  ultimately show ?thesis by (simp add: lineno_field_def)
qed

lemma malformed_skipped:
  assumes "malformed py_int raw"
  shows "parse_line py_int raw = None"
proof (rule ccontr)
  assume "parse_line py_int raw \<noteq> None"
  then obtain caller callee n where some: "parse_line py_int raw = Some (caller, callee, n)"
    by auto
  then have seps: "CHR '','' \<in> set (strip raw)" "CHR '':'' \<in> set (strip raw)"
    by (auto simp: parse_line_def Let_def split: if_splits)
  from parse_line_SomeD [OF some] obtain callee_part lineno
    where "split (CHR '','') (strip raw) = [caller, callee_part]"
      and "split (CHR '':'') callee_part = [callee, lineno]" and "py_int lineno = Some n"
    by blast
  then have "py_int (lineno_field (strip raw)) = Some n"
    using parsed_lineno_field [of "strip raw" caller callee_part callee lineno] by simp
  with assms seps show False by (simp add: malformed_def Let_def)
qed

lemma parse_step_malformed: "malformed py_int raw \<Longrightarrow> parse_step py_int raw acc = acc"
  by (simp add: parse_step_def malformed_skipped)

lemma fold_parse_step_filter:
  "fold (parse_step py_int) lines acc
     = fold (parse_step py_int) (filter (\<lambda>l. \<not> malformed py_int l) lines) acc"
proof (induction lines arbitrary: acc)
  case Nil
  show ?case by simp
next
  case (Cons l ls)
  let ?keep = "filter (\<lambda>l. \<not> malformed py_int l)"
  show ?case
  proof (cases "malformed py_int l")
    case True
    then have "fold (parse_step py_int) (l # ls) acc = fold (parse_step py_int) ls acc"
      by (simp add: parse_step_malformed)
    also have "\<dots> = fold (parse_step py_int) (?keep ls) acc" by (rule Cons.IH)
    also have "\<dots> = fold (parse_step py_int) (?keep (l # ls)) acc" using True by simp
    finally show ?thesis .
  next
    case False
    have "fold (parse_step py_int) (l # ls) acc
        = fold (parse_step py_int) ls (parse_step py_int l acc)" by simp
    also have "\<dots> = fold (parse_step py_int) (?keep ls) (parse_step py_int l acc)"
      by (rule Cons.IH)
    also have "\<dots> = fold (parse_step py_int) (?keep (l # ls)) acc" using False by simp
    finally show ?thesis .
  qed
qed

lemma split_no_sep: "sep \<notin> set s \<Longrightarrow> split sep s = [s]"
  by (induction s) auto

lemma split_at_sep: "sep \<notin> set a \<Longrightarrow> split sep (a @ sep # b) = a # split sep b"
  by (induction a) auto

text \<open>
  A line of the form \<open>caller,callee:line\<close>, with one comma, one colon after it and a
  line number that \<open>py_int\<close> accepts, is parsed into its edge.
\<close>

lemma parse_line_accepts:
  assumes line: "strip raw = caller @ CHR '','' # callee @ CHR '':'' # num"
    and comma: "CHR '','' \<notin> set caller" "CHR '','' \<notin> set callee" "CHR '','' \<notin> set num"
    and colon: "CHR '':'' \<notin> set callee" "CHR '':'' \<notin> set num"
    and num: "py_int num = Some n"
  shows "parse_line py_int raw = Some (caller, callee, n)"
proof -
  from comma(2,3) have "CHR '','' \<notin> set (callee @ CHR '':'' # num)" by simp
  then have "split (CHR '','') (callee @ CHR '':'' # num) = [callee @ CHR '':'' # num]"
    by (rule split_no_sep)
  with split_at_sep [OF comma(1), of "callee @ CHR '':'' # num"]
  have 1: "split (CHR '','') (strip raw) = [caller, callee @ CHR '':'' # num]"
    unfolding line by simp
  from split_at_sep [OF colon(1), of num] split_no_sep [OF colon(2)]
  have 2: "split (CHR '':'') (callee @ CHR '':'' # num) = [callee, num]"
    by simp
  have 3: "strip raw \<noteq> []" "CHR '','' \<in> set (strip raw)" "CHR '':'' \<in> set (strip raw)"
    unfolding line by simp_all
  show ?thesis unfolding parse_line_def Let_def using 3 by (simp add: 1 2 num)
qed

text \<open>
  A line with a second colon after the comma has both separators and a number after
  its last colon, but the unpacking of \<open>callee_part.split(':')\<close> fails on it: it is
  skipped as well.
\<close>

lemma example_second_colon:
  "\<not> malformed decimal_int ''main,std::sort:12''"
  "parse_line decimal_int ''main,std::sort:12'' = None"
  by code_simp+

text \<open>The two dictionaries that the parser builds have distinct keys.\<close>

lemma dict_append_keys:
  "map fst (dict_append k v d) = (if k \<in> fst ` set d then map fst d else map fst d @ [k])"
proof (induction d)
  case Nil
  show ?case by simp
next
  case (Cons e d)
  obtain k' vs where e: "e = (k', vs)" by (cases e)
  show ?case
  proof (cases "k = k'")
    case True
    with e show ?thesis by simp
  next
    case False
    with e Cons.IH show ?thesis by (cases "k \<in> fst ` set d") auto
  qed
qed

lemma dict_append_distinct: "distinct (map fst d) \<Longrightarrow> distinct (map fst (dict_append k v d))"
  by (simp add: dict_append_keys)

lemma parse_step_keys_distinct:
  "distinct (map fst (fst acc)) \<and> distinct (map fst (snd acc)) \<Longrightarrow>
   distinct (map fst (fst (parse_step py_int raw acc)))
   \<and> distinct (map fst (snd (parse_step py_int raw acc)))"
  by (auto simp: parse_step_def dict_append_distinct split: option.splits)

lemma parse_keys_distinct:
  "distinct (map fst (fst (parse_call_graph_file py_int lines)))
   \<and> distinct (map fst (snd (parse_call_graph_file py_int lines)))"
proof -
  have "distinct (map fst (fst (fold (parse_step py_int) ls acc)))
      \<and> distinct (map fst (snd (fold (parse_step py_int) ls acc)))"
    if "distinct (map fst (fst acc)) \<and> distinct (map fst (snd acc))" for ls acc
    using that
  proof (induction ls arbitrary: acc)
    case Nil
    then show ?case by simp
  next
    case (Cons l ls)
    from Cons.IH [OF parse_step_keys_distinct [OF Cons.prems]] show ?case by simp
  qed
  from this [of "([], [])" lines] show ?thesis by (simp add: parse_call_graph_file_def)
qed

text \<open>The third scenario of the specification, with a line whose number is not one.\<close>

lemma example_filter:
  "filter (\<lambda>l. \<not> malformed decimal_int l)
     [''A,B:1'', ''foo-bar'', '' A,C:2 '', ''B,D:x'', ''B,D:1'']
   = [''A,B:1'', '' A,C:2 '', ''B,D:1'']"
  by code_simp

lemma example_parse:
  "parse_call_graph_file decimal_int [''A,B:1'', '' A,C:2 '', ''B,D:1'']
   = ([(''A'', [''B'', ''C'']), (''B'', [''D''])],
      [(''A'', [(''B'', 1), (''C'', 2)]), (''B'', [(''D'', 1)])])"
  by code_simp

text \<open>
  C9: for every sequence of input lines, \<open>parse_call_graph_file\<close> returns, without
  failing, the call graph and the call-site map that it builds from the lines that
  are not malformed, taken in file order; a malformed line is skipped and changes
  nothing for the lines before and after it; and a line \<open>caller,callee:line\<close> with an
  integer line number adds its edge to both maps, whatever was read before it.
\<close>

theorem malformed_lines_skipped:
  "parse_call_graph_file py_int lines
     = parse_call_graph_file py_int (filter (\<lambda>l. \<not> malformed py_int l) lines)
   \<and> (malformed py_int bad \<longrightarrow>
        parse_line py_int bad = None
        \<and> parse_call_graph_file py_int (before @ bad # after)
          = parse_call_graph_file py_int (before @ after))
   \<and> (strip good = caller @ CHR '','' # callee @ CHR '':'' # num
        \<and> CHR '','' \<notin> set caller \<and> CHR '','' \<notin> set callee \<and> CHR '','' \<notin> set num
        \<and> CHR '':'' \<notin> set callee \<and> CHR '':'' \<notin> set num \<and> py_int num = Some n \<longrightarrow>
        parse_step py_int good acc
          = (dict_append caller callee (fst acc), dict_append caller (callee, n) (snd acc)))"
proof -
  have "parse_call_graph_file py_int (before @ bad # after)
      = parse_call_graph_file py_int (before @ after)" if "malformed py_int bad"
    unfolding parse_call_graph_file_def using that by (simp add: parse_step_malformed)
  moreover have "parse_call_graph_file py_int lines
      = parse_call_graph_file py_int (filter (\<lambda>l. \<not> malformed py_int l) lines)"
    unfolding parse_call_graph_file_def by (rule fold_parse_step_filter)
  moreover have "parse_step py_int good acc
      = (dict_append caller callee (fst acc), dict_append caller (callee, n) (snd acc))"
    if "strip good = caller @ CHR '','' # callee @ CHR '':'' # num"
      "CHR '','' \<notin> set caller" "CHR '','' \<notin> set callee" "CHR '','' \<notin> set num"
      "CHR '':'' \<notin> set callee" "CHR '':'' \<notin> set num" "py_int num = Some n"
    using parse_line_accepts [of good caller callee num py_int n] that
    by (simp add: parse_step_def)
  ultimately show ?thesis using malformed_skipped [of py_int bad] by blast
qed

theorem malformed_lines_skipped_witness:
  "malformed decimal_int ''foo-bar''
   \<and> parse_line decimal_int ''foo-bar'' = None
   \<and> parse_call_graph_file decimal_int [''A,B:1'', ''foo-bar'', ''B,D:1'']
     = parse_call_graph_file decimal_int [''A,B:1'', ''B,D:1'']
   \<and> parse_call_graph_file decimal_int [''A,B:1'', ''foo-bar'', '' A,C:2 '', ''B,D:x'', ''B,D:1'']
     = ([(''A'', [''B'', ''C'']), (''B'', [''D''])],
        [(''A'', [(''B'', 1), (''C'', 2)]), (''B'', [(''D'', 1)])])
   \<and> strip '' A,C:2 '' = ''A'' @ CHR '','' # ''C'' @ CHR '':'' # ''2''
   \<and> decimal_int ''2'' = Some 2
   \<and> parse_step decimal_int '' A,C:2 '' ([(''A'', [''B''])], [(''A'', [(''B'', 1)])])
     = ([(''A'', [''B'', ''C''])], [(''A'', [(''B'', 1), (''C'', 2)])])"
proof -
  have m: "malformed decimal_int ''foo-bar''" by code_simp
  have g: "strip '' A,C:2 '' = ''A'' @ CHR '','' # ''C'' @ CHR '':'' # ''2''"
    "decimal_int ''2'' = Some 2"
    by code_simp+
  have seps: "CHR '','' \<notin> set ''A''" "CHR '','' \<notin> set ''C''" "CHR '','' \<notin> set ''2''"
    "CHR '':'' \<notin> set ''C''" "CHR '':'' \<notin> set ''2''"
    by simp_all
  note inst = malformed_lines_skipped
    [of decimal_int "[''A,B:1'', ''foo-bar'', '' A,C:2 '', ''B,D:x'', ''B,D:1'']"
      "''foo-bar''" "[''A,B:1'']" "[''B,D:1'']" "'' A,C:2 ''" "''A''" "''C''" "''2''" 2
      "([(''A'', [''B''])], [(''A'', [(''B'', 1)])])"]
  from inst have "parse_call_graph_file decimal_int
      [''A,B:1'', ''foo-bar'', '' A,C:2 '', ''B,D:x'', ''B,D:1'']
    = ([(''A'', [''B'', ''C'']), (''B'', [''D''])],
       [(''A'', [(''B'', 1), (''C'', 2)]), (''B'', [(''D'', 1)])])"
    by (simp only: example_filter example_parse)
  moreover from inst m have "parse_line decimal_int ''foo-bar'' = None
    \<and> parse_call_graph_file decimal_int ([''A,B:1''] @ ''foo-bar'' # [''B,D:1''])
      = parse_call_graph_file decimal_int ([''A,B:1''] @ [''B,D:1''])"
    by blast
  moreover from inst g seps
  have "parse_step decimal_int '' A,C:2 '' ([(''A'', [''B''])], [(''A'', [(''B'', 1)])])
    = (dict_append ''A'' ''C'' (fst ([(''A'', [''B''])], [(''A'', [(''B'', 1::int)])])),
       dict_append ''A'' (''C'', 2) (snd ([(''A'', [''B''])], [(''A'', [(''B'', 1)])])))"
    by blast
  ultimately show ?thesis using m g by simp
qed

end
